theory Spec2Isabelle
  imports Complex_Main
begin

section \<open>Values of the host language\<close>

text \<open>
  The scanner is a Node.js script. Its version arithmetic runs on JavaScript numbers:
  \<^verbatim>\<open>Number(s)\<close> is a double, so either not-a-number, an infinity, or a finite value.
  Every finite double is a rational. The two zeros of a double are one value here:
  \<^verbatim>\<open>||\<close>, \<^verbatim>\<open><\<close> and \<^verbatim>\<open>>\<close> cannot tell them apart, and nothing else is applied to
  them. A string is a list of characters; the characters that matter to the program
  (the dot and the five operator characters) are ASCII.
\<close>

datatype jsnum = NaN | NegInf | Fin rat | PosInf

text \<open>\<^verbatim>\<open>a > b\<close> and \<^verbatim>\<open>a < b\<close> on numbers: false as soon as one side is NaN.\<close>

fun js_gt :: "jsnum \<Rightarrow> jsnum \<Rightarrow> bool" where
  "js_gt NaN _ = False"
| "js_gt _ NaN = False"
| "js_gt PosInf PosInf = False"
| "js_gt PosInf _ = True"
| "js_gt _ PosInf = False"
| "js_gt NegInf _ = False"
| "js_gt (Fin _) NegInf = True"
| "js_gt (Fin a) (Fin b) = (b < a)"

definition js_lt :: "jsnum \<Rightarrow> jsnum \<Rightarrow> bool" where
  "js_lt a b = js_gt b a"

text \<open>Truthiness of a number: \<^verbatim>\<open>0\<close> and \<^verbatim>\<open>NaN\<close> are falsy.\<close>

fun truthy :: "jsnum \<Rightarrow> bool" where
  "truthy NaN = False"
| "truthy (Fin q) = (q \<noteq> 0)"
| "truthy _ = True"

text \<open>
  \<^verbatim>\<open>parts[i] || 0\<close>: reading an array past its end gives \<^verbatim>\<open>undefined\<close>, which is
  falsy, so the expression is \<^verbatim>\<open>0\<close> there; inside the array it is the element when
  the element is truthy and \<^verbatim>\<open>0\<close> otherwise.
\<close>

definition part_or_zero :: "jsnum list \<Rightarrow> nat \<Rightarrow> jsnum" where
  "part_or_zero ps i =
     (if i < length ps then (if truthy (ps ! i) then ps ! i else Fin 0) else Fin 0)"

text \<open>
  \<^verbatim>\<open>s.split(".")\<close>: the pieces of \<open>s\<close> between the separators. The result is never
  empty: a string without separator is its own single piece, and the empty string
  gives one empty piece.
\<close>

fun split :: "char \<Rightarrow> string \<Rightarrow> string list" where
  "split sep [] = [[]]"
| "split sep (c # cs) =
     (if c = sep then [] # split sep cs
      else (case split sep cs of p # ps \<Rightarrow> (c # p) # ps | [] \<Rightarrow> [[c]]))"

section \<open>Version strings\<close>

text \<open>
  \<^verbatim>\<open>version.replace(/^[\^~>=<]/, "")\<close>: the pattern is anchored at the start of the
  string and has no global flag, so one character is removed, and only when the string
  starts with one of the five.
\<close>

definition operatorChars :: "char set" where
  "operatorChars = {CHR ''^'', CHR ''~'', CHR ''>'', CHR ''='', CHR ''<''}"

fun cleanVersion :: "string \<Rightarrow> string" where
  "cleanVersion [] = []"
| "cleanVersion (c # cs) = (if c \<in> operatorChars then cs else c # cs)"

text \<open>
  \<^verbatim>\<open>isVersionHigher\<close>. The conversion \<^verbatim>\<open>Number\<close> of a string to a number is the host's
  and is not part of the repository: it is the parameter \<open>num\<close>, and everything proved
  below holds for whatever function it is. The \<^verbatim>\<open>for\<close> loop over
  \<open>i = 0 ..< maxLength\<close> is the recursion \<open>higherFrom\<close>.
\<close>

function higherFrom :: "jsnum list \<Rightarrow> jsnum list \<Rightarrow> nat \<Rightarrow> nat \<Rightarrow> bool" where
  "higherFrom v1Parts v2Parts maxLength i =
     (if i < maxLength then
        (let v1Part = part_or_zero v1Parts i;
             v2Part = part_or_zero v2Parts i
         in if js_gt v1Part v2Part then True
            else if js_lt v1Part v2Part then False
            else higherFrom v1Parts v2Parts maxLength (Suc i))
      else False)"
  by pat_completeness auto
termination
  by (relation "measure (\<lambda>(v1Parts, v2Parts, maxLength, i). maxLength - i)") auto

declare higherFrom.simps [simp del]

definition isVersionHigher :: "(string \<Rightarrow> jsnum) \<Rightarrow> string \<Rightarrow> string \<Rightarrow> bool" where
  "isVersionHigher num version1 version2 =
     (let v1Parts = map num (split CHR ''.'' version1);
          v2Parts = map num (split CHR ''.'' version2);
          maxLength = max (length v1Parts) (length v2Parts)
      in higherFrom v1Parts v2Parts maxLength 0)"

text \<open>
  A conversion to evaluate examples with: the empty string is \<open>0\<close>, a string of decimal
  digits is its value, anything else is \<open>NaN\<close>. \<^verbatim>\<open>Number\<close> agrees with it on the empty
  string and on digit strings below \<open>2^53\<close>, which is all the examples use.
\<close>

definition isDigit :: "char \<Rightarrow> bool" where
  "isDigit c = (c \<in> set ''0123456789'')"

definition digitsValue :: "string \<Rightarrow> nat" where
  "digitsValue s = foldl (\<lambda>acc c. 10 * acc + (of_char c - (48::nat))) 0 s"

definition decimalNumber :: "string \<Rightarrow> jsnum" where
  "decimalNumber s = (if list_all isDigit s then Fin (of_nat (digitsValue s)) else NaN)"

section \<open>Manifests and the two accumulating maps\<close>

text \<open>
  What \<^verbatim>\<open>JSON.parse\<close> returns. An object is the list of its own properties, each key
  once. \<^verbatim>\<open>JSON.parse\<close> itself is the host's: it is a field of \<open>host\<close>, beside
  \<^verbatim>\<open>Number\<close>, and gives \<open>None\<close> where it throws its \<^verbatim>\<open>SyntaxError\<close>.
\<close>

datatype json =
    JNull
  | JBool bool
  | JNum rat
  | JStr string
  | JArr "json list"
  | JObj "(string \<times> json) list"

text \<open>
  What can be thrown: the two errors of the language that occur here, an error of a call
  of \<^verbatim>\<open>fs\<close> with its code, and the \<^verbatim>\<open>Error\<close> that \<^verbatim>\<open>scanProjects\<close> creates itself.
\<close>

datatype failure = TypeError | SyntaxError | SystemError string | PlainError string

record host =
  toNumber :: "string \<Rightarrow> jsnum"
  jsonParse :: "string \<Rightarrow> json option"

text \<open>Truthiness of a value under \<^verbatim>\<open>if (...)\<close>; \<open>None\<close> is \<^verbatim>\<open>undefined\<close>.\<close>

fun truthyValue :: "json option \<Rightarrow> bool" where
  "truthyValue None = False"
| "truthyValue (Some JNull) = False"
| "truthyValue (Some (JBool b)) = b"
| "truthyValue (Some (JNum q)) = (q \<noteq> 0)"
| "truthyValue (Some (JStr s)) = (s \<noteq> [])"
| "truthyValue (Some (JArr _)) = True"
| "truthyValue (Some (JObj _)) = True"

text \<open>
  \<^verbatim>\<open>packageJson.dependencies\<close>: reading a property of \<^verbatim>\<open>null\<close> throws; an object
  gives its property or \<^verbatim>\<open>undefined\<close>; no other parsed value has a property of
  these names.
\<close>

fun getProperty :: "json \<Rightarrow> string \<Rightarrow> failure + json option" where
  "getProperty JNull name = Inl TypeError"
| "getProperty (JObj props) name = Inr (map_of props name)"
| "getProperty _ name = Inr None"

function showNat :: "nat \<Rightarrow> string" where
  "showNat n =
     (if n < 10 then [char_of (48 + n)] else showNat (n div 10) @ [char_of (48 + n mod 10)])"
  by pat_completeness auto
termination
  by (relation "measure id") auto

declare showNat.simps [simp del]

text \<open>
  \<^verbatim>\<open>Object.entries(deps)\<close>: the properties of an object; the indexed elements of an
  array; the indexed characters of a string; nothing for a number or a boolean.
\<close>

fun objectEntries :: "json \<Rightarrow> failure + (string \<times> json) list" where
  "objectEntries JNull = Inl TypeError"
| "objectEntries (JObj props) = Inr props"
| "objectEntries (JArr xs) = Inr (zip (map showNat [0..<length xs]) xs)"
| "objectEntries (JStr s) = Inr (zip (map showNat [0..<length s]) (map (\<lambda>c. JStr [c]) s))"
| "objectEntries _ = Inr []"

text \<open>
  A \<^verbatim>\<open>Map\<close> from package names to cleaned versions, in insertion order: \<^verbatim>\<open>set\<close> on a
  key that is present replaces the value where it stands, on a new key it appends.
\<close>

type_synonym depMap = "(string \<times> string) list"

fun mapSet :: "depMap \<Rightarrow> string \<Rightarrow> string \<Rightarrow> depMap" where
  "mapSet [] k v = [(k, v)]"
| "mapSet ((k', v') # m) k v = (if k' = k then (k, v) # m else (k', v') # mapSet m k v)"

definition mapHas :: "depMap \<Rightarrow> string \<Rightarrow> bool" where
  "mapHas m k = (map_of m k \<noteq> None)"

definition mapGet :: "depMap \<Rightarrow> string \<Rightarrow> string option" where
  "mapGet m k = map_of m k"

text \<open>
  The body of the loop of \<^verbatim>\<open>processDependencyGroup\<close> for one entry whose version
  is a string: \<open>mergeVersion\<close>. \<^verbatim>\<open>version.replace\<close> exists on strings only: on any
  other value the call throws a \<^verbatim>\<open>TypeError\<close>, which leaves the map as the entries
  before it made it.
\<close>

definition mergeVersion :: "(string \<Rightarrow> jsnum) \<Rightarrow> depMap \<Rightarrow> string \<Rightarrow> string \<Rightarrow> depMap" where
  "mergeVersion num targetMap name version =
     (let cleanVersionStr = cleanVersion version
      in if mapHas targetMap name then
           (case mapGet targetMap name of
              Some existingVersion \<Rightarrow>
                if isVersionHigher num cleanVersionStr existingVersion
                then mapSet targetMap name cleanVersionStr
                else targetMap
            | None \<Rightarrow> targetMap)
         else mapSet targetMap name cleanVersionStr)"

fun mergeEntry :: "(string \<Rightarrow> jsnum) \<Rightarrow> string \<times> json \<Rightarrow> depMap \<Rightarrow> failure + depMap" where
  "mergeEntry num (name, JStr version) targetMap = Inr (mergeVersion num targetMap name version)"
| "mergeEntry num (name, _) targetMap = Inl TypeError"

text \<open>The loop: the map it leaves, and the exception that ended it, if one did.\<close>

fun mergeEntries ::
  "(string \<Rightarrow> jsnum) \<Rightarrow> (string \<times> json) list \<Rightarrow> depMap \<Rightarrow> depMap \<times> failure option" where
  "mergeEntries num [] targetMap = (targetMap, None)"
| "mergeEntries num (entry # rest) targetMap =
     (case mergeEntry num entry targetMap of
        Inl e \<Rightarrow> (targetMap, Some e)
      | Inr targetMap' \<Rightarrow> mergeEntries num rest targetMap')"

definition processDependencyGroup ::
  "(string \<Rightarrow> jsnum) \<Rightarrow> json \<Rightarrow> depMap \<Rightarrow> depMap \<times> failure option" where
  "processDependencyGroup num deps targetMap =
     (case objectEntries deps of
        Inl e \<Rightarrow> (targetMap, Some e)
      | Inr entries \<Rightarrow> mergeEntries num entries targetMap)"

section \<open>The directory tree\<close>

text \<open>
  A path is the list of its names. A node of the tree is what the three calls of
  \<^verbatim>\<open>fs\<close> find there:
  \<^item> \<open>File r\<close>: \<^verbatim>\<open>statSync\<close> succeeds and says it is no directory; \<^verbatim>\<open>readFileSync\<close>
    returns the text \<open>Inr t\<close> or throws \<open>Inl e\<close>;
  \<^item> \<open>Dir err items\<close>: \<^verbatim>\<open>statSync\<close> says it is a directory; \<^verbatim>\<open>readdirSync\<close> throws
    \<open>e\<close> when \<open>err = Some e\<close> and returns the names of \<open>items\<close>, in this order,
    otherwise;
  \<^item> \<open>Broken e\<close>: \<^verbatim>\<open>statSync\<close> throws \<open>e\<close> (a dangling link, a name that vanished),
    and \<^verbatim>\<open>existsSync\<close> is false.
  The tree is finite: links that lead back into their own ancestors are outside the
  model.
\<close>

type_synonym path = "string list"

datatype node =
    File "failure + string"
  | Dir "failure option" "(string \<times> node) list"
  | Broken failure

fun nodeAt :: "node \<Rightarrow> path \<Rightarrow> node option" where
  "nodeAt n [] = Some n"
| "nodeAt n (name # rest) =
     (case n of
        Dir _ items \<Rightarrow> (case map_of items name of None \<Rightarrow> None | Some c \<Rightarrow> nodeAt c rest)
      | _ \<Rightarrow> None)"

definition existsSync :: "node \<Rightarrow> path \<Rightarrow> bool" where
  "existsSync fs p = (case nodeAt fs p of None \<Rightarrow> False | Some (Broken _) \<Rightarrow> False | Some _ \<Rightarrow> True)"

definition readFileSync :: "node \<Rightarrow> path \<Rightarrow> failure + string" where
  "readFileSync fs p =
     (case nodeAt fs p of
        None \<Rightarrow> Inl (SystemError ''ENOENT'')
      | Some (File r) \<Rightarrow> r
      | Some (Dir _ _) \<Rightarrow> Inl (SystemError ''EISDIR'')
      | Some (Broken e) \<Rightarrow> Inl e)"

text \<open>\<^verbatim>\<open>fs.existsSync(path.join(fullPath, "package.json"))\<close>, from the entries of \<open>fullPath\<close>.\<close>

definition hasManifest :: "(string \<times> node) list \<Rightarrow> bool" where
  "hasManifest items =
     (case map_of items ''package.json'' of None \<Rightarrow> False | Some (Broken _) \<Rightarrow> False | Some _ \<Rightarrow> True)"

text \<open>What the program prints, line by line.\<close>

datatype console =
    ScanStart path
  | FoundProjects nat
  | Processing path
  | WarnDirectory path failure
  | WarnManifest path failure
  | Saved
  | Completed
  | FoundTotals nat nat
  | ErrorDuringScanning failure

text \<open>
  \<^verbatim>\<open>findProjects\<close>, given the path \<open>dir\<close> and the node the path leads to. The \<^verbatim>\<open>try\<close> block holds the whole loop:
  an exception of \<^verbatim>\<open>readdirSync\<close> or of a \<^verbatim>\<open>statSync\<close> ends the loop, is printed as
  a warning about \<open>dir\<close>, and the projects pushed so far are returned. \<open>scanItems\<close> is
  the loop; its third result is the exception that ended it.
\<close>

fun findProjects :: "path \<Rightarrow> node \<Rightarrow> path list \<times> console list"
  and scanItems :: "path \<Rightarrow> (string \<times> node) list \<Rightarrow> path list \<times> console list \<times> failure option"
where
  "findProjects dir (Dir err items) =
     (case err of
        Some e \<Rightarrow> ([], [WarnDirectory dir e])
      | None \<Rightarrow>
          (case scanItems dir items of
             (projects, warnings, None) \<Rightarrow> (projects, warnings)
           | (projects, warnings, Some e) \<Rightarrow> (projects, warnings @ [WarnDirectory dir e])))"
| "findProjects dir (File _) = ([], [WarnDirectory dir (SystemError ''ENOTDIR'')])"
| "findProjects dir (Broken e) = ([], [WarnDirectory dir e])"
| "scanItems dir [] = ([], [], None)"
| "scanItems dir ((item, Broken e) # rest) = ([], [], Some e)"
| "scanItems dir ((item, File _) # rest) = scanItems dir rest"
| "scanItems dir ((item, Dir err sub) # rest) =
     (let fullPath = dir @ [item];
          (found, warned) =
            (if hasManifest sub then ([fullPath], [])
             else findProjects fullPath (Dir err sub));
          (projects, warnings, thrown) = scanItems dir rest
      in (found @ projects, warned @ warnings, thrown))"

text \<open>
  The call \<^verbatim>\<open>findProjects(dir)\<close> with a path: the walk above on the node the path leads
  to. On a path that leads nowhere \<^verbatim>\<open>readdirSync\<close> throws, which gives the warning
  and no project.
\<close>

definition findProjectsAt :: "node \<Rightarrow> path \<Rightarrow> path list \<times> console list" where
  "findProjectsAt fs dir =
     (case nodeAt fs dir of
        None \<Rightarrow> ([], [WarnDirectory dir (SystemError ''ENOENT'')])
      | Some n \<Rightarrow> findProjects dir n)"

section \<open>Processing, the report and the run\<close>

text \<open>
  \<^verbatim>\<open>processProject\<close>: one \<^verbatim>\<open>try\<close> around reading, parsing and both merges. An
  exception anywhere prints the warning and ends the call; what a merge had already
  written to its map stays.
\<close>

definition processGroup ::
  "(string \<Rightarrow> jsnum) \<Rightarrow> json \<Rightarrow> string \<Rightarrow> depMap \<Rightarrow> depMap \<times> failure option" where
  "processGroup num packageJson name targetMap =
     (case getProperty packageJson name of
        Inl e \<Rightarrow> (targetMap, Some e)
      | Inr None \<Rightarrow> (targetMap, None)
      | Inr (Some deps) \<Rightarrow>
          if truthyValue (Some deps) then processDependencyGroup num deps targetMap
          else (targetMap, None))"

definition processProject ::
  "host \<Rightarrow> node \<Rightarrow> path \<Rightarrow> depMap \<times> depMap \<Rightarrow> (depMap \<times> depMap) \<times> console list" where
  "processProject h fs projectPath maps =
     (let packageJsonPath = projectPath @ [''package.json''];
          (dependencies, devDependencies) = maps
      in case readFileSync fs packageJsonPath of
           Inl e \<Rightarrow> (maps, [WarnManifest packageJsonPath e])
         | Inr packageJsonContent \<Rightarrow>
             (case jsonParse h packageJsonContent of
                None \<Rightarrow> (maps, [WarnManifest packageJsonPath SyntaxError])
              | Some packageJson \<Rightarrow>
                  (case processGroup (toNumber h) packageJson ''dependencies'' dependencies of
                     (dependencies', Some e) \<Rightarrow>
                       ((dependencies', devDependencies), [WarnManifest packageJsonPath e])
                   | (dependencies', None) \<Rightarrow>
                       (case processGroup (toNumber h) packageJson ''devDependencies''
                               devDependencies of
                          (devDependencies', Some e) \<Rightarrow>
                            ((dependencies', devDependencies'), [WarnManifest packageJsonPath e])
                        | (devDependencies', None) \<Rightarrow>
                            ((dependencies', devDependencies'), [])))))"

text \<open>The loop of \<^verbatim>\<open>scanProjects\<close> over the projects found.\<close>

fun processAll ::
  "host \<Rightarrow> node \<Rightarrow> path list \<Rightarrow> depMap \<times> depMap \<Rightarrow> (depMap \<times> depMap) \<times> console list" where
  "processAll h fs [] maps = (maps, [])"
| "processAll h fs (projectPath # rest) maps =
     (let (maps', warned) = processProject h fs projectPath maps;
          (maps'', printed) = processAll h fs rest maps'
      in (maps'', Processing projectPath # warned @ printed))"

text \<open>
  The object \<^verbatim>\<open>generateResult\<close> fills, \<^verbatim>\<open>obj[name] = value\<close> on an object created by
  \<^verbatim>\<open>{}\<close>: an ordinary name becomes a property, or changes the one there is. The name
  \<^verbatim>\<open>__proto__\<close> is the accessor inherited from \<^verbatim>\<open>Object.prototype\<close>, whose setter
  ignores a value that is neither an object nor \<^verbatim>\<open>null\<close>: assigning a string to it
  creates no property. The list holds the properties; their enumeration order is
  not modelled.
\<close>

type_synonym jsObject = "(string \<times> string) list"

definition objectSet :: "jsObject \<Rightarrow> string \<Rightarrow> string \<Rightarrow> jsObject" where
  "objectSet obj name v = (if name = ''__proto__'' then obj else mapSet obj name v)"

definition caretObject :: "depMap \<Rightarrow> jsObject" where
  "caretObject m = foldl (\<lambda>obj (name, version). objectSet obj name (CHR ''^'' # version)) [] m"

record summary =
  totalDependencies :: nat
  totalDevDependencies :: nat

record report =
  scanDate :: string
  vegaPath :: path
  totalProjects :: nat
  dependencies :: jsObject
  devDependencies :: jsObject
  summary :: summary

text \<open>
  \<^verbatim>\<open>generateResult\<close>. It walks the tree itself, so it reads the tree as it is when
  the report is built (\<open>fs\<close> here), and prints the warnings of that walk. \<open>now\<close> is
  \<^verbatim>\<open>new Date().toISOString()\<close>.
\<close>

definition generateResult ::
  "node \<Rightarrow> string \<Rightarrow> depMap \<Rightarrow> depMap \<Rightarrow> path \<Rightarrow> report \<times> console list" where
  "generateResult fs now deps devDeps rootPath =
     (let dependenciesObj = caretObject deps;
          devDependenciesObj = caretObject devDeps;
          (projects, warnings) = findProjectsAt fs rootPath
      in (\<lparr>scanDate = now, vegaPath = rootPath, totalProjects = length projects,
            dependencies = dependenciesObj, devDependencies = devDependenciesObj,
            summary = \<lparr>totalDependencies = length deps, totalDevDependencies = length devDeps\<rparr>\<rparr>,
          warnings))"

text \<open>
  \<^verbatim>\<open>scanProjects\<close>. The run reads the tree twice: \<open>fs\<close> is the tree during discovery
  and processing, \<open>fsLater\<close> the tree when the report is built. \<open>writeError\<close> is the
  exception of \<^verbatim>\<open>writeFileSync\<close>, if it throws. The outcome is what was printed,
  the report written to \<^verbatim>\<open>list.json\<close> (if any) and the exit status.
\<close>

record outcome =
  printed :: "console list"
  written :: "report option"
  exitStatus :: nat

definition scanProjects ::
  "host \<Rightarrow> node \<Rightarrow> node \<Rightarrow> string \<Rightarrow> failure option \<Rightarrow> path \<Rightarrow> outcome" where
  "scanProjects h fs fsLater now writeError rootPath =
     (if \<not> existsSync fs rootPath then
        \<lparr>printed = [ScanStart rootPath, ErrorDuringScanning (PlainError ''Vega folder not found'')],
         written = None, exitStatus = 1\<rparr>
      else
        (let (projects, warnings) = findProjectsAt fs rootPath;
             ((deps, devDeps), processed) = processAll h fs projects ([], []);
             (result, warningsLater) = generateResult fsLater now deps devDeps rootPath;
             before = [ScanStart rootPath] @ warnings @ [FoundProjects (length projects)] @
                      processed @ warningsLater
         in case writeError of
              Some e \<Rightarrow>
                \<lparr>printed = before @ [ErrorDuringScanning e], written = None, exitStatus = 1\<rparr>
            | None \<Rightarrow>
                \<lparr>printed = before @
                   [Saved, Completed,
                    FoundTotals (length (dependencies result)) (length (devDependencies result))],
                 written = Some result, exitStatus = 0\<rparr>))"

section \<open>The comparator as an order\<close>

text \<open>
  What the loop of \<^verbatim>\<open>isVersionHigher\<close> reads of a version: component \<open>i\<close> after
  \<^verbatim>\<open>|| 0\<close>, for every index, also past the end of the array.
\<close>

definition versionKey :: "(string \<Rightarrow> jsnum) \<Rightarrow> string \<Rightarrow> nat \<Rightarrow> jsnum" where
  "versionKey num v i = part_or_zero (map num (split CHR ''.'' v)) i"

text \<open>The lexicographic order on such sequences: the first index where they differ decides.\<close>

definition lexHigher :: "(nat \<Rightarrow> jsnum) \<Rightarrow> (nat \<Rightarrow> jsnum) \<Rightarrow> bool" where
  "lexHigher f g = (\<exists>k. js_gt (f k) (g k) \<and> (\<forall>j<k. f j = g j))"

text \<open>
  The specification's reading of a version: its \<open>.\<close>-separated components as numbers,
  a missing component and a component that is not a number both taken as \<open>0\<close>.
\<close>

definition paddedComponent :: "(string \<Rightarrow> jsnum) \<Rightarrow> string \<Rightarrow> nat \<Rightarrow> jsnum" where
  "paddedComponent num v i =
     (let parts = split CHR ''.'' v
      in if i < length parts then (case num (parts ! i) of NaN \<Rightarrow> Fin 0 | x \<Rightarrow> x) else Fin 0)"

text \<open>The number of leading operator characters of a version specifier.\<close>

definition operatorPrefix :: "string \<Rightarrow> nat" where
  "operatorPrefix x = length (takeWhile (\<lambda>c. c \<in> operatorChars) x)"

section \<open>Notions the properties are stated with\<close>

subsection \<open>Trees and the traversal rule\<close>


text \<open>
  \<open>manifestDir n q\<close>: the node at the relative path \<open>q\<close> below \<open>n\<close> is a directory that
  directly contains a manifest. \<open>clearAbove n q\<close>: no directory on the way from \<open>n\<close> to
  that node, \<open>n\<close> and the node themselves left out, directly contains one.
\<close>

definition manifestDir :: "node \<Rightarrow> path \<Rightarrow> bool" where
  "manifestDir n q = (case nodeAt n q of Some (Dir _ items) \<Rightarrow> hasManifest items | _ \<Rightarrow> False)"



text \<open>
  The directories the rule searches, as relative paths: the argument itself, and every
  subdirectory of a searched directory that does not directly contain a manifest.
\<close>

fun walkedAt :: "node \<Rightarrow> path \<Rightarrow> bool" where
  "walkedAt n [] = True"
| "walkedAt n (name # rest) =
     (case n of
        Dir _ items \<Rightarrow>
          (case map_of items name of
             Some (Dir err sub) \<Rightarrow> \<not> hasManifest sub \<and> walkedAt (Dir err sub) rest
           | _ \<Rightarrow> False)
      | _ \<Rightarrow> False)"

subsection \<open>Manifests and what the merger is given\<close>


text \<open>The parsed manifest of a project, when it can be read and parsed.\<close>

definition manifestOf :: "host \<Rightarrow> node \<Rightarrow> path \<Rightarrow> json option" where
  "manifestOf h fs projectPath =
     (case readFileSync fs (projectPath @ [''package.json'']) of
        Inl _ \<Rightarrow> None
      | Inr text \<Rightarrow> jsonParse h text)"

text \<open>
  The entries a manifest declares in a group, as \<^verbatim>\<open>processProject\<close> hands them to the
  merger: none when the group is absent or falsy. The merger's loop stops at the first
  entry whose version is no string; \<open>stringEntries\<close> are the entries it merges before
  that, and \<open>groupThrows\<close> says whether handling the group raises an exception.
\<close>

fun stringValued :: "string \<times> json \<Rightarrow> bool" where
  "stringValued (name, JStr v) = True"
| "stringValued (name, _) = False"

fun stringEntries :: "(string \<times> json) list \<Rightarrow> (string \<times> string) list" where
  "stringEntries [] = []"
| "stringEntries ((name, JStr v) # rest) = (name, v) # stringEntries rest"
| "stringEntries ((name, _) # rest) = []"

definition declaredGroup :: "json \<Rightarrow> string \<Rightarrow> (string \<times> json) list" where
  "declaredGroup packageJson grp =
     (case getProperty packageJson grp of
        Inr (Some deps) \<Rightarrow>
          if truthyValue (Some deps)
          then (case objectEntries deps of Inr entries \<Rightarrow> entries | Inl _ \<Rightarrow> [])
          else []
      | _ \<Rightarrow> [])"

definition groupThrows :: "json \<Rightarrow> string \<Rightarrow> bool" where
  "groupThrows packageJson grp =
     (packageJson = JNull \<or> \<not> list_all stringValued (declaredGroup packageJson grp))"

text \<open>
  The entries of a project that reach the runtime map and the development map. The
  development group is not looked at when the runtime group raised.
\<close>

definition mergedRuntime :: "host \<Rightarrow> node \<Rightarrow> path \<Rightarrow> (string \<times> string) list" where
  "mergedRuntime h fs projectPath =
     (case manifestOf h fs projectPath of
        None \<Rightarrow> []
      | Some packageJson \<Rightarrow> stringEntries (declaredGroup packageJson ''dependencies''))"

definition mergedDev :: "host \<Rightarrow> node \<Rightarrow> path \<Rightarrow> (string \<times> string) list" where
  "mergedDev h fs projectPath =
     (case manifestOf h fs projectPath of
        None \<Rightarrow> []
      | Some packageJson \<Rightarrow>
          if groupThrows packageJson ''dependencies'' then []
          else stringEntries (declaredGroup packageJson ''devDependencies''))"

text \<open>A project that is processed without a warning.\<close>

definition processedCleanly :: "host \<Rightarrow> node \<Rightarrow> path \<Rightarrow> bool" where
  "processedCleanly h fs projectPath = (snd (processProject h fs projectPath ([], [])) = [])"

text \<open>The loop body of the merger, run over entries that are all strings.\<close>

abbreviation mergeAll :: "(string \<Rightarrow> jsnum) \<Rightarrow> depMap \<Rightarrow> (string \<times> string) list \<Rightarrow> depMap" where
  "mergeAll num m entries \<equiv> foldl (\<lambda>m (n, v). mergeVersion num m n v) m entries"

text \<open>
  What one name's entry of the map goes through: \<open>keepHigher\<close> is the decision of the
  loop body on the stored version, \<open>seenVersions\<close> the cleaned versions declared for
  the name, in the order the merger meets them.
\<close>

definition keepHigher :: "(string \<Rightarrow> jsnum) \<Rightarrow> string option \<Rightarrow> string \<Rightarrow> string option" where
  "keepHigher num stored c =
     (case stored of None \<Rightarrow> Some c | Some s \<Rightarrow> if isVersionHigher num c s then Some c else Some s)"

definition seenVersions :: "string \<Rightarrow> (string \<times> string) list \<Rightarrow> string list" where
  "seenVersions name entries = map (\<lambda>(n, v). cleanVersion v) (filter (\<lambda>(n, v). n = name) entries)"

text \<open>
  \<open>firstHighest num s cs\<close>: \<open>s\<close> occurs in \<open>cs\<close>, no version of \<open>cs\<close> ranks above it,
  and every version before that occurrence ranks strictly below it. So \<open>s\<close> is the
  first of the versions of \<open>cs\<close> that nothing outranks.
\<close>

definition firstHighest :: "(string \<Rightarrow> jsnum) \<Rightarrow> string \<Rightarrow> string list \<Rightarrow> bool" where
  "firstHighest num s cs =
     (\<exists>before after. cs = before @ s # after \<and>
        (\<forall>x \<in> set before. isVersionHigher num s x) \<and>
        (\<forall>x \<in> set after. \<not> isVersionHigher num x s))"

subsection \<open>Examples\<close>

text \<open>
  A host for the examples: \<open>decimalNumber\<close> for \<^verbatim>\<open>Number\<close>, and for \<^verbatim>\<open>JSON.parse\<close> the
  table of the manifests the examples use, each with the value \<^verbatim>\<open>JSON.parse\<close> returns
  for it; any other text, such as the truncated manifest of \<open>malformedTree\<close>, does not
  parse.
\<close>

definition exampleParse :: "string \<Rightarrow> json option" where
  \<open>exampleParse text =
     (if text = ''{}'' then Some (JObj [])
      else if text = ''{"dependencies":{"lib":"^1.2.0"}}'' then
        Some (JObj [(''dependencies'', JObj [(''lib'', JStr ''^1.2.0'')])])
      else if text = ''{"dependencies":{"lib":"1.5.0"}}'' then
        Some (JObj [(''dependencies'', JObj [(''lib'', JStr ''1.5.0'')])])
      else if text = ''{"dependencies":{"lib":"1.0"}}'' then
        Some (JObj [(''dependencies'', JObj [(''lib'', JStr ''1.0'')])])
      else if text = ''{"dependencies":{"lib":"1.0.0"}}'' then
        Some (JObj [(''dependencies'', JObj [(''lib'', JStr ''1.0.0'')])])
      else if text = ''{"dependencies":{"__proto__":"1.0.0"}}'' then
        Some (JObj [(''dependencies'', JObj [(''__proto__'', JStr ''1.0.0'')])])
      else None)\<close>

definition exampleHost :: host where
  "exampleHost = \<lparr>toNumber = decimalNumber, jsonParse = exampleParse\<rparr>"

text \<open>
  Trees for the examples. \<open>twoProjects\<close> is the first end-to-end scenario of the
  specification; \<open>oneProject\<close> is the same tree after \<open>B\<close> has gone; in \<open>tiedProjects\<close>
  both versions compare equal; \<open>nestedTree\<close> has a manifest in the root, in \<open>A\<close> and in
  \<open>A/B\<close>; \<open>lockedTree\<close> has a directory that cannot be listed between two projects, and
  \<open>brokenTree\<close> an entry whose status cannot be read; the project of \<open>sealedProject\<close>
  holds a directory that cannot be listed and a dangling link; the
  manifest of \<open>M\<close> in \<open>malformedTree\<close> is cut off; \<open>protoTree\<close> declares a dependency named
  \<^verbatim>\<open>__proto__\<close>.
\<close>

definition twoProjects :: node where
  \<open>twoProjects = Dir None
     [(''A'', Dir None [(''package.json'', File (Inr ''{"dependencies":{"lib":"^1.2.0"}}''))]),
      (''B'', Dir None [(''package.json'', File (Inr ''{"dependencies":{"lib":"1.5.0"}}''))])]\<close>

definition tiedProjects :: node where
  \<open>tiedProjects = Dir None
     [(''A'', Dir None [(''package.json'', File (Inr ''{"dependencies":{"lib":"1.0"}}''))]),
      (''B'', Dir None [(''package.json'', File (Inr ''{"dependencies":{"lib":"1.0.0"}}''))])]\<close>

definition oneProject :: node where
  \<open>oneProject = Dir None
     [(''A'', Dir None [(''package.json'', File (Inr ''{"dependencies":{"lib":"^1.2.0"}}''))])]\<close>


definition protoTree :: node where
  \<open>protoTree = Dir None
     [(''P'', Dir None [(''package.json'', File (Inr ''{"dependencies":{"__proto__":"1.0.0"}}''))])]\<close>


definition lockedTree :: node where
  \<open>lockedTree = Dir None
     [(''A'', Dir None [(''package.json'', File (Inr ''{}''))]),
      (''locked'', Dir (Some (SystemError ''EACCES'')) []),
      (''B'', Dir None [(''package.json'', File (Inr ''{}''))])]\<close>


definition brokenTree :: node where
  \<open>brokenTree = Dir None
     [(''A'', Dir None [(''package.json'', File (Inr ''{}''))]),
      (''X'', Broken (SystemError ''EIO'')),
      (''B'', Dir None [(''package.json'', File (Inr ''{}''))])]\<close>

section \<open>Properties of the comparator\<close>

lemma js_gt_irrefl: "\<not> js_gt x x"
  by (cases x) auto

lemma js_gt_trans: "js_gt x y \<Longrightarrow> js_gt y z \<Longrightarrow> js_gt x z"
  by (cases x; cases y; cases z) auto

lemma js_gt_total: "x \<noteq> NaN \<Longrightarrow> y \<noteq> NaN \<Longrightarrow> js_gt x y \<or> x = y \<or> js_gt y x"
  by (cases x; cases y) auto

lemma part_or_zero_not_NaN: "part_or_zero ps i \<noteq> NaN"
  unfolding part_or_zero_def by (cases "ps ! i") auto

lemma part_or_zero_beyond: "length ps \<le> i \<Longrightarrow> part_or_zero ps i = Fin 0"
  by (simp add: part_or_zero_def)

lemma higherFrom_iff:
  "higherFrom p q n i =
     (\<exists>k. i \<le> k \<and> k < n \<and> js_gt (part_or_zero p k) (part_or_zero q k) \<and>
          (\<forall>j. i \<le> j \<and> j < k \<longrightarrow> part_or_zero p j = part_or_zero q j))"
proof (induction p q n i rule: higherFrom.induct)
  case (1 p q n i)
  let ?a = "part_or_zero p i" and ?b = "part_or_zero q i"
  show ?case
  proof (cases "i < n")
    case False
    then show ?thesis by (subst higherFrom.simps) auto
  next
    case inb: True
    consider (gt) "js_gt ?a ?b" | (lt) "\<not> js_gt ?a ?b" "js_gt ?b ?a" | (eq) "\<not> js_gt ?a ?b" "\<not> js_gt ?b ?a"
      by blast
    then show ?thesis
    proof cases
      case gt
      have "higherFrom p q n i" using inb gt by (subst higherFrom.simps) simp
      moreover have "\<exists>k. i \<le> k \<and> k < n \<and> js_gt (part_or_zero p k) (part_or_zero q k) \<and>
          (\<forall>j. i \<le> j \<and> j < k \<longrightarrow> part_or_zero p j = part_or_zero q j)"
        using inb gt by (intro exI[of _ i]) auto
      ultimately show ?thesis by blast
    next
      case lt
      have ne: "?a \<noteq> ?b" using lt js_gt_irrefl by metis
      have "\<not> higherFrom p q n i" using inb lt by (subst higherFrom.simps) (simp add: js_lt_def)
      moreover have "\<not> (\<exists>k. i \<le> k \<and> k < n \<and> js_gt (part_or_zero p k) (part_or_zero q k) \<and>
          (\<forall>j. i \<le> j \<and> j < k \<longrightarrow> part_or_zero p j = part_or_zero q j))"
      proof
        assume "\<exists>k. i \<le> k \<and> k < n \<and> js_gt (part_or_zero p k) (part_or_zero q k) \<and>
          (\<forall>j. i \<le> j \<and> j < k \<longrightarrow> part_or_zero p j = part_or_zero q j)"
        then obtain k where k: "i \<le> k" "js_gt (part_or_zero p k) (part_or_zero q k)"
          "\<forall>j. i \<le> j \<and> j < k \<longrightarrow> part_or_zero p j = part_or_zero q j" by blast
        show False
        proof (cases "k = i")
          case True then show ?thesis using k lt by simp
        next
          case False then have "i < k" using k by simp
          then show ?thesis using k ne by blast
        qed
      qed
      ultimately show ?thesis by blast
    next
      case eq
      have e: "?a = ?b" using eq js_gt_total[of ?a ?b] part_or_zero_not_NaN by blast
      have "higherFrom p q n i = higherFrom p q n (Suc i)"
        using inb eq by (subst higherFrom.simps) (simp add: js_lt_def)
      also have "\<dots> = (\<exists>k. Suc i \<le> k \<and> k < n \<and> js_gt (part_or_zero p k) (part_or_zero q k) \<and>
          (\<forall>j. Suc i \<le> j \<and> j < k \<longrightarrow> part_or_zero p j = part_or_zero q j))"
        using "1.IH"[OF inb refl refl] eq by (simp add: js_lt_def)
      also have "\<dots> = (\<exists>k. i \<le> k \<and> k < n \<and> js_gt (part_or_zero p k) (part_or_zero q k) \<and>
          (\<forall>j. i \<le> j \<and> j < k \<longrightarrow> part_or_zero p j = part_or_zero q j))"
      proof (intro iffI; elim exE conjE)
        fix k assume "Suc i \<le> k" "k < n" "js_gt (part_or_zero p k) (part_or_zero q k)"
          "\<forall>j. Suc i \<le> j \<and> j < k \<longrightarrow> part_or_zero p j = part_or_zero q j"
        moreover have "\<And>j. i \<le> j \<Longrightarrow> j = i \<or> Suc i \<le> j" by auto
        ultimately show "\<exists>k. i \<le> k \<and> k < n \<and> js_gt (part_or_zero p k) (part_or_zero q k) \<and>
          (\<forall>j. i \<le> j \<and> j < k \<longrightarrow> part_or_zero p j = part_or_zero q j)"
          using e by (intro exI[of _ k]) (metis Suc_leD)
      next
        fix k assume k: "i \<le> k" "k < n" "js_gt (part_or_zero p k) (part_or_zero q k)"
          "\<forall>j. i \<le> j \<and> j < k \<longrightarrow> part_or_zero p j = part_or_zero q j"
        have "k \<noteq> i" using k(3) eq(1) by auto
        then have "Suc i \<le> k" using k(1) by simp
        then show "\<exists>k. Suc i \<le> k \<and> k < n \<and> js_gt (part_or_zero p k) (part_or_zero q k) \<and>
          (\<forall>j. Suc i \<le> j \<and> j < k \<longrightarrow> part_or_zero p j = part_or_zero q j)"
          using k by (intro exI[of _ k]) auto
      qed
      finally show ?thesis .
    qed
  qed
qed

lemma versionKey_not_NaN: "versionKey num v i \<noteq> NaN"
  by (simp add: versionKey_def part_or_zero_not_NaN)

lemma isVersionHigher_lex: "isVersionHigher num a b = lexHigher (versionKey num a) (versionKey num b)"
proof -
  let ?p = "map num (split CHR ''.'' a)" and ?q = "map num (split CHR ''.'' b)"
  let ?n = "max (length ?p) (length ?q)"
  have beyond: "\<not> js_gt (part_or_zero ?p k) (part_or_zero ?q k)" if "?n \<le> k" for k
    using that by (simp add: part_or_zero_beyond)
  have "isVersionHigher num a b =
      (\<exists>k. k < ?n \<and> js_gt (part_or_zero ?p k) (part_or_zero ?q k) \<and>
          (\<forall>j. j < k \<longrightarrow> part_or_zero ?p j = part_or_zero ?q j))"
    unfolding isVersionHigher_def Let_def by (subst higherFrom_iff) simp
  also have "\<dots> = (\<exists>k. js_gt (part_or_zero ?p k) (part_or_zero ?q k) \<and>
          (\<forall>j. j < k \<longrightarrow> part_or_zero ?p j = part_or_zero ?q j))"
    using beyond by (meson not_le)
  finally show ?thesis by (simp add: lexHigher_def versionKey_def)
qed

lemma lexHigher_irrefl: "\<not> lexHigher f f"
  by (simp add: lexHigher_def js_gt_irrefl)

lemma lexHigher_trans:
  assumes "lexHigher f g" "lexHigher g h"
  shows "lexHigher f h"
proof -
  obtain k1 where k1: "js_gt (f k1) (g k1)" "\<forall>j<k1. f j = g j"
    using assms(1) by (auto simp: lexHigher_def)
  obtain k2 where k2: "js_gt (g k2) (h k2)" "\<forall>j<k2. g j = h j"
    using assms(2) by (auto simp: lexHigher_def)
  consider "k1 < k2" | "k1 = k2" | "k2 < k1" by linarith
  then show ?thesis
  proof cases
    case 1
    then have "js_gt (f k1) (h k1)" "\<forall>j<k1. f j = h j" using k1 k2 by auto
    then show ?thesis unfolding lexHigher_def by blast
  next
    case 2
    then have "js_gt (f k1) (h k1)" "\<forall>j<k1. f j = h j"
      using k1 k2 js_gt_trans by auto
    then show ?thesis unfolding lexHigher_def by blast
  next
    case 3
    then have "js_gt (f k2) (h k2)" "\<forall>j<k2. f j = h j" using k1 k2 by auto
    then show ?thesis unfolding lexHigher_def by blast
  qed
qed

lemma lexHigher_total:
  assumes "\<And>i. f i \<noteq> NaN" "\<And>i. g i \<noteq> NaN" "f \<noteq> g"
  shows "lexHigher f g \<or> lexHigher g f"
proof -
  from assms(3) obtain i where "f i \<noteq> g i" by blast
  define k where "k = (LEAST i. f i \<noteq> g i)"
  have d: "f k \<noteq> g k" unfolding k_def using \<open>f i \<noteq> g i\<close> by (rule LeastI)
  have e: "\<forall>j<k. f j = g j" unfolding k_def using not_less_Least by blast
  have "js_gt (f k) (g k) \<or> js_gt (g k) (f k)"
    using js_gt_total[OF assms(1) assms(2), of k k] d by blast
  then show ?thesis using e unfolding lexHigher_def by (metis)
qed

lemma isVersionHigher_irrefl: "\<not> isVersionHigher num a a"
  by (simp add: isVersionHigher_lex lexHigher_irrefl)

lemma isVersionHigher_trans:
  "isVersionHigher num a b \<Longrightarrow> isVersionHigher num b c \<Longrightarrow> isVersionHigher num a c"
  unfolding isVersionHigher_lex by (rule lexHigher_trans)

lemma isVersionHigher_asym: "isVersionHigher num a b \<Longrightarrow> \<not> isVersionHigher num b a"
  using isVersionHigher_trans isVersionHigher_irrefl by blast

lemma isVersionHigher_tie:
  "(\<not> isVersionHigher num a b \<and> \<not> isVersionHigher num b a) = (versionKey num a = versionKey num b)"
  unfolding isVersionHigher_lex
  using lexHigher_total[of "versionKey num a" "versionKey num b"] versionKey_not_NaN lexHigher_irrefl
  by metis

lemma isVersionHigher_cotrans:
  assumes "isVersionHigher num a c"
  shows "isVersionHigher num a b \<or> isVersionHigher num b c"
proof (rule ccontr)
  assume n: "\<not> (isVersionHigher num a b \<or> isVersionHigher num b c)"
  show False
  proof (cases "isVersionHigher num b a")
    case True
    then show ?thesis using assms n isVersionHigher_trans by blast
  next
    case False
    then have "versionKey num a = versionKey num b" using n isVersionHigher_tie by blast
    then show ?thesis using assms n by (simp add: isVersionHigher_lex)
  qed
qed

section \<open>The comparator and the normalizer against their contracts\<close>

lemma versionKey_padded: "versionKey num v i = paddedComponent num v i"
  unfolding versionKey_def paddedComponent_def part_or_zero_def Let_def
  by (cases "num (split CHR ''.'' v ! i)") auto

text \<open>
  Claim C2. \<^verbatim>\<open>isVersionHigher a b\<close> is true exactly when, reading the
  \<open>.\<close>-separated components of both versions as numbers from left to right, with a
  missing component and a component that is not a number both taken as \<open>0\<close>, the
  first component where they differ is strictly greater in \<open>a\<close>. So it is false when
  all components agree, and false on \<open>(a, a)\<close>. The numbers are those of the host's
  \<^verbatim>\<open>Number\<close>, whatever that function is.
\<close>

theorem isVersionHigher_first_difference:
  "isVersionHigher num a b =
     (\<exists>i. js_gt (paddedComponent num a i) (paddedComponent num b i) \<and>
          (\<forall>j<i. paddedComponent num a j = paddedComponent num b j)) \<and>
   ((\<forall>i. paddedComponent num a i = paddedComponent num b i) \<longrightarrow> \<not> isVersionHigher num a b) \<and>
   \<not> isVersionHigher num a a"
proof -
  have lex: "isVersionHigher num x y =
     (\<exists>i. js_gt (paddedComponent num x i) (paddedComponent num y i) \<and>
          (\<forall>j<i. paddedComponent num x j = paddedComponent num y j))" for x y
    by (simp add: isVersionHigher_lex lexHigher_def versionKey_padded)
  have "\<not> isVersionHigher num a b" if "\<forall>i. paddedComponent num a i = paddedComponent num b i"
    using that by (simp add: lex js_gt_irrefl)
  moreover have "\<not> isVersionHigher num a a"
    by (rule isVersionHigher_irrefl)
  ultimately show ?thesis using lex by blast
qed

theorem isVersionHigher_first_difference_witness:
  "(\<forall>i. paddedComponent decimalNumber ''1.0'' i = paddedComponent decimalNumber ''1.0.0'' i) \<and>
   \<not> isVersionHigher decimalNumber ''1.0'' ''1.0.0'' \<and>
   isVersionHigher decimalNumber ''1.5.0'' ''1.2.0'' \<and>
   js_gt (paddedComponent decimalNumber ''1.5.0'' 1) (paddedComponent decimalNumber ''1.2.0'' 1)"
proof -
  have same: "\<forall>i. paddedComponent decimalNumber ''1.0'' i = paddedComponent decimalNumber ''1.0.0'' i"
  proof
    fix i :: nat
    consider "i = 0" | "i = 1" | "i = 2" | "3 \<le> i" by linarith
    then show "paddedComponent decimalNumber ''1.0'' i = paddedComponent decimalNumber ''1.0.0'' i"
      by cases (simp_all add: paddedComponent_def decimalNumber_def isDigit_def digitsValue_def)
  qed
  have gt: "js_gt (paddedComponent decimalNumber ''1.5.0'' 1) (paddedComponent decimalNumber ''1.2.0'' 1)"
    by (simp add: paddedComponent_def decimalNumber_def isDigit_def digitsValue_def)
  have eq0: "\<forall>j<1. paddedComponent decimalNumber ''1.5.0'' j = paddedComponent decimalNumber ''1.2.0'' j"
    by (simp add: paddedComponent_def decimalNumber_def isDigit_def digitsValue_def)
  have "isVersionHigher decimalNumber ''1.5.0'' ''1.2.0''"
    using isVersionHigher_first_difference [of decimalNumber "''1.5.0''" "''1.2.0''"] gt eq0
    by blast
  moreover have "\<not> isVersionHigher decimalNumber ''1.0'' ''1.0.0''"
    using isVersionHigher_first_difference [of decimalNumber "''1.0''" "''1.0.0''"] same
    by blast
  ultimately show ?thesis using same gt by blast
qed

text \<open>
  Claim C8. \<^verbatim>\<open>cleanVersion\<close> removes the first character when it is one of
  \<open>^ ~ > = <\<close> and returns the string unchanged otherwise, so it removes at most one
  character; on a string with at most one leading operator character, applying it
  twice gives what applying it once gives.
\<close>

theorem cleanVersion_strips_one:
  "cleanVersion x = (if x \<noteq> [] \<and> hd x \<in> operatorChars then tl x else x) \<and>
   (operatorPrefix x \<le> 1 \<longrightarrow> cleanVersion (cleanVersion x) = cleanVersion x)"
proof (cases x)
  case Nil
  then show ?thesis by simp
next
  case (Cons c cs)
  show ?thesis
  proof (cases "c \<in> operatorChars")
    case False
    then show ?thesis using Cons by simp
  next
    case True
    have "cleanVersion cs = cs" if "operatorPrefix x \<le> 1"
      using that True Cons by (cases cs) (auto simp: operatorPrefix_def split: if_splits)
    then show ?thesis using True Cons by simp
  qed
qed

theorem cleanVersion_strips_one_witness:
  "operatorPrefix ''^1.2.3'' \<le> 1 \<and> cleanVersion ''^1.2.3'' = ''1.2.3'' \<and>
   cleanVersion (cleanVersion ''^1.2.3'') = cleanVersion ''^1.2.3'' \<and>
   cleanVersion ''>=3.1.0'' = ''=3.1.0'' \<and> cleanVersion ''2.0'' = ''2.0''"
proof -
  have h: "operatorPrefix ''^1.2.3'' \<le> 1"
    by (simp add: operatorPrefix_def operatorChars_def)
  show ?thesis
    using h cleanVersion_strips_one [of "''^1.2.3''"] cleanVersion_strips_one [of "''>=3.1.0''"]
      cleanVersion_strips_one [of "''2.0''"]
    by (simp add: operatorChars_def)
qed

section \<open>The walk\<close>

lemma scanItems_Dir:
  "scanItems dir ((item, Dir err sub) # rest) =
     ((if hasManifest sub then [dir @ [item]]
       else fst (findProjects (dir @ [item]) (Dir err sub))) @ fst (scanItems dir rest),
      (if hasManifest sub then []
       else snd (findProjects (dir @ [item]) (Dir err sub))) @ fst (snd (scanItems dir rest)),
      snd (snd (scanItems dir rest)))"
  by (simp add: Let_def split: prod.splits)

lemma findProjects_Dir:
  "findProjects dir (Dir err items) =
     (case err of
        Some e \<Rightarrow> ([], [WarnDirectory dir e])
      | None \<Rightarrow>
          (fst (scanItems dir items),
           fst (snd (scanItems dir items)) @
           (case snd (snd (scanItems dir items)) of None \<Rightarrow> [] | Some e \<Rightarrow> [WarnDirectory dir e])))"
  by (simp split: prod.splits option.splits)

declare scanItems.simps(4) [simp del] findProjects.simps(1) [simp del]

lemma scanItems_append:
  "scanItems dir (xs @ ys) =
     (fst (scanItems dir xs) @
        (if snd (snd (scanItems dir xs)) = None then fst (scanItems dir ys) else []),
      fst (snd (scanItems dir xs)) @
        (if snd (snd (scanItems dir xs)) = None then fst (snd (scanItems dir ys)) else []),
      if snd (snd (scanItems dir xs)) = None then snd (snd (scanItems dir ys))
      else snd (snd (scanItems dir xs)))"
proof (induction xs)
  case Nil
  show ?case by simp
next
  case (Cons x xs)
  obtain item n where x: "x = (item, n)" by (cases x)
  show ?case
  proof (cases n)
    case (File r)
    then show ?thesis using Cons x by simp
  next
    case (Dir err sub)
    then show ?thesis unfolding x Dir append_Cons scanItems_Dir Cons by simp
  next
    case (Broken e)
    then show ?thesis using x by simp
  qed
qed

lemma walk_induct [case_names Dir File Broken Nil BrokenItem FileItem DirItem]:
  assumes Dir: "\<And>dir err items. Q dir items \<Longrightarrow> P dir (Dir err items)"
    and File: "\<And>dir r. P dir (File r)"
    and Broken: "\<And>dir e. P dir (Broken e)"
    and Nil: "\<And>dir. Q dir []"
    and BrokenItem: "\<And>dir item e rest. Q dir ((item, Broken e) # rest)"
    and FileItem: "\<And>dir item r rest. Q dir rest \<Longrightarrow> Q dir ((item, File r) # rest)"
    and DirItem: "\<And>dir item err sub rest.
           P (dir @ [item]) (Dir err sub) \<Longrightarrow> Q dir rest \<Longrightarrow> Q dir ((item, Dir err sub) # rest)"
  shows "P dir n" and "Q dir items"
proof -
  have items: "Q d xs" if "\<And>c d'. c \<in> snd ` set xs \<Longrightarrow> P d' c" for d xs
    using that
  proof (induction xs)
    case Nil
    show ?case by (rule assms(4))
  next
    case (Cons x xs)
    obtain item c where x: "x = (item, c)" by (cases x)
    have rest: "Q d xs" using Cons by simp
    have here: "P (d @ [item]) c" using Cons.prems x by simp
    show ?case
      unfolding x using rest here
      by (cases c) (auto intro: BrokenItem FileItem DirItem)
  qed
  have node: "P d m" for d m
  proof (induction m arbitrary: d)
    case (File r)
    show ?case by (rule assms(2))
  next
    case (Dir err xs)
    have "P d' c" if "c \<in> snd ` set xs" for c d'
      using that Dir by (auto simp: snds.simps)
    then have "Q d xs" by (rule items)
    then show ?case by (rule assms(1))
  next
    case (Broken e)
    show ?case by (rule assms(3))
  qed
  show "P dir n" by (rule node)
  show "Q dir items" by (rule items) (rule node)
qed

lemma found_below:
  "\<forall>p \<in> set (fst (findProjects dir n)). \<exists>q. q \<noteq> [] \<and> p = dir @ q"
  "\<forall>p \<in> set (fst (scanItems dir items)). \<exists>q. q \<noteq> [] \<and> p = dir @ q"
proof (induction dir n and dir items rule: walk_induct)
  case (Dir dir err items)
  then show ?case by (cases err) (simp_all add: findProjects_Dir)
next
  case (File dir r)
  show ?case by simp
next
  case (Broken dir e)
  show ?case by simp
next
  case (Nil dir)
  show ?case by simp
next
  case (BrokenItem dir item e rest)
  show ?case by simp
next
  case (FileItem dir item r rest)
  then show ?case by simp
next
  case (DirItem dir item err sub rest)
  show ?case
  proof
    fix p assume "p \<in> set (fst (scanItems dir ((item, Dir err sub) # rest)))"
    then consider
        (here) "p = dir @ [item]"
      | (deep) "p \<in> set (fst (findProjects (dir @ [item]) (Dir err sub)))"
      | (later) "p \<in> set (fst (scanItems dir rest))"
      unfolding scanItems_Dir by (cases "hasManifest sub") auto
    then show "\<exists>q. q \<noteq> [] \<and> p = dir @ q"
    proof cases
      case here
      then show ?thesis by blast
    next
      case deep
      then obtain q where "q \<noteq> []" "p = (dir @ [item]) @ q" using DirItem(1) by blast
      then have "item # q \<noteq> [] \<and> p = dir @ (item # q)" by simp
      then show ?thesis by blast
    next
      case later
      then show ?thesis using DirItem(2) by blast
    qed
  qed
qed










lemma scanItems_File_between:
  "scanItems dir (pre @ (name, File c) # post) = scanItems dir (pre @ post)"
  unfolding scanItems_append[of dir pre "(name, File c) # post"] scanItems_append[of dir pre post]
  by simp








lemma walkedAt_skip:
  "name \<noteq> item \<Longrightarrow> walkedAt (Dir e ((item, c) # rest)) (name # r) = walkedAt (Dir e rest) (name # r)"
  by simp




lemma scanItems_unreadable_between:
  assumes "\<not> hasManifest sub"
  shows "scanItems dir (pre @ (item, Dir (Some e) sub) # post) =
     (fst (scanItems dir (pre @ post)),
      fst (snd (scanItems dir pre)) @
        (if snd (snd (scanItems dir pre)) = None
         then WarnDirectory (dir @ [item]) e # fst (snd (scanItems dir post)) else []),
      snd (snd (scanItems dir (pre @ post))))"
  unfolding scanItems_append[of dir pre "(item, Dir (Some e) sub) # post"]
    scanItems_append[of dir pre post] scanItems_Dir findProjects_Dir
  using assms by simp

section \<open>Project Finder against its contract\<close>

text \<open>
  Claim C10. Whatever the argument of \<^verbatim>\<open>findProjects\<close> holds, every path it returns is
  a strict extension of the argument's path, so the argument itself is never returned;
  and a manifest file directly in the argument changes nothing: the walk examines the
  argument's entries all the same and returns what it returns without that file.
\<close>

theorem findProjects_below_root:
  "(\<forall>p \<in> set (fst (findProjects dir n)). \<exists>q. q \<noteq> [] \<and> p = dir @ q) \<and>
   dir \<notin> set (fst (findProjects dir n)) \<and>
   findProjects dir (Dir err (pre @ (''package.json'', File c) # post)) =
     findProjects dir (Dir err (pre @ post))"
proof -
  have below: "\<forall>p \<in> set (fst (findProjects dir n)). \<exists>q. q \<noteq> [] \<and> p = dir @ q"
    by (rule found_below(1))
  have "dir \<notin> set (fst (findProjects dir n))"
  proof
    assume "dir \<in> set (fst (findProjects dir n))"
    then obtain q where "q \<noteq> []" "dir = dir @ q" using below by blast
    then show False by simp
  qed
  moreover have "findProjects dir (Dir err (pre @ (''package.json'', File c) # post)) =
     findProjects dir (Dir err (pre @ post))"
    unfolding findProjects_Dir scanItems_File_between by (rule refl)
  ultimately show ?thesis using below by blast
qed

text \<open>
  An instance: a root that holds a manifest and a project \<open>A\<close>. The root is not
  returned, \<open>A\<close> is.
\<close>

theorem findProjects_below_root_witness:
  "hasManifest [(''package.json'', File (Inr ''{}'')),
      (''A'', Dir None [(''package.json'', File (Inr ''{}''))])] \<and>
   [''vega''] \<notin> set (fst (findProjects [''vega''] (Dir None
     [(''package.json'', File (Inr ''{}'')),
      (''A'', Dir None [(''package.json'', File (Inr ''{}''))])]))) \<and>
   fst (findProjects [''vega''] (Dir None
     [(''package.json'', File (Inr ''{}'')),
      (''A'', Dir None [(''package.json'', File (Inr ''{}''))])])) = [[''vega'', ''A'']]"
  using findProjects_below_root [of "[''vega'']" "Dir None
     [(''package.json'', File (Inr ''{}'')),
      (''A'', Dir None [(''package.json'', File (Inr ''{}''))])]" None "[]" "Inr ''{}''"
      "[(''A'', Dir None [(''package.json'', File (Inr ''{}''))])]"]
  by (simp add: hasManifest_def findProjects_Dir scanItems_Dir)




text \<open>
  A directory that \<^verbatim>\<open>readdirSync\<close> cannot list gives a warning and no project. In
  the loop of its parent it changes neither the projects found nor the way the loop
  ends: both are those of the loop without that directory, so its siblings before and
  after it contribute as they would; the warning is printed when the loop reaches it.
  The run is not aborted: when the root exists and the report can be written, the exit
  status is 0.
\<close>

lemma unlistable_directory_is_skipped:
  "findProjects dir (Dir (Some e) items) = ([], [WarnDirectory dir e]) \<and>
   (\<not> hasManifest sub \<longrightarrow>
      fst (scanItems dir (pre @ (item, Dir (Some e) sub) # post)) = fst (scanItems dir (pre @ post)) \<and>
      snd (snd (scanItems dir (pre @ (item, Dir (Some e) sub) # post))) =
        snd (snd (scanItems dir (pre @ post))) \<and>
      (snd (snd (scanItems dir pre)) = None \<longrightarrow>
         WarnDirectory (dir @ [item]) e
           \<in> set (fst (snd (scanItems dir (pre @ (item, Dir (Some e) sub) # post)))))) \<and>
   (existsSync fs rootPath \<longrightarrow> exitStatus (scanProjects h fs fsLater now None rootPath) = 0)"
proof -
  have "exitStatus (scanProjects h fs fsLater now None rootPath) = 0" if "existsSync fs rootPath"
    using that by (simp add: scanProjects_def Let_def split: prod.splits)
  then show ?thesis
    by (simp add: findProjects_Dir scanItems_unreadable_between)
qed

lemma unlistable_directory_example:
  "findProjectsAt lockedTree [] =
     ([[''A''], [''B'']], [WarnDirectory [''locked''] (SystemError ''EACCES'')])"
  by (simp add: findProjectsAt_def lockedTree_def findProjects_Dir scanItems_Dir hasManifest_def)

text \<open>
  Claim C6 at an entry whose status cannot be read. In \<open>brokenTree\<close> the root lists the
  project \<open>A\<close>, the entry \<open>X\<close> on which \<^verbatim>\<open>statSync\<close> throws, and the project \<open>B\<close>. The
  one \<^verbatim>\<open>try\<close> around the loop catches that exception: the walk reports that the root
  could not be read, although it was listed, returns \<open>A\<close>, and never examines \<open>B\<close>.
  Without the entry \<open>X\<close> both projects are returned; and when \<open>X\<close> is a directory that
  cannot be listed, as in \<open>lockedTree\<close>, both are returned too.
\<close>

theorem stat_failure_drops_sibling:
  "findProjectsAt brokenTree [] = ([[''A'']], [WarnDirectory [] (SystemError ''EIO'')]) \<and>
   manifestDir brokenTree [''B''] \<and>
   findProjectsAt (Dir None
     [(''A'', Dir None [(''package.json'', File (Inr ''{}''))]),
      (''B'', Dir None [(''package.json'', File (Inr ''{}''))])]) [] = ([[''A''], [''B'']], [])"
  by (simp add: findProjectsAt_def brokenTree_def findProjects_Dir scanItems_Dir hasManifest_def
      manifestDir_def)

section \<open>Processing and the report against their contracts\<close>

text \<open>
  Claim C9. \<^verbatim>\<open>totalProjects\<close> is the number of projects that a walk of the root finds
  when the report is built: \<^verbatim>\<open>generateResult\<close> calls \<^verbatim>\<open>findProjects\<close> itself, on the
  tree as it then is. In a run, the count printed after discovery comes from the first
  walk and the count in the report from the second.
\<close>

theorem totalProjects_from_second_walk:
  "totalProjects (fst (generateResult fsLater now deps devDeps rootPath)) =
     length (fst (findProjectsAt fsLater rootPath)) \<and>
   (existsSync fs rootPath \<longrightarrow>
      (\<exists>r. written (scanProjects h fs fsLater now None rootPath) = Some r \<and>
           totalProjects r = length (fst (findProjectsAt fsLater rootPath))) \<and>
      FoundProjects (length (fst (findProjectsAt fs rootPath)))
        \<in> set (printed (scanProjects h fs fsLater now None rootPath)))"
  by (simp add: generateResult_def scanProjects_def Let_def split: prod.splits)

text \<open>
  An instance: the project \<open>B\<close> goes away between discovery and the building of the
  report. Two projects are announced, the report counts one.
\<close>

theorem totalProjects_from_second_walk_witness:
  "existsSync twoProjects [] \<and>
   length (fst (findProjectsAt twoProjects [])) = 2 \<and>
   length (fst (findProjectsAt oneProject [])) = 1 \<and>
   (\<exists>r. written (scanProjects exampleHost twoProjects oneProject ''2024-01-01T00:00:00.000Z'' None [])
          = Some r \<and> totalProjects r = 1) \<and>
   FoundProjects 2
     \<in> set (printed (scanProjects exampleHost twoProjects oneProject ''2024-01-01T00:00:00.000Z'' None []))"
proof -
  have ex: "existsSync twoProjects []" by (simp add: existsSync_def twoProjects_def)
  have two: "length (fst (findProjectsAt twoProjects [])) = 2"
    by (simp add: findProjectsAt_def twoProjects_def findProjects_Dir scanItems_Dir hasManifest_def)
  have one: "length (fst (findProjectsAt oneProject [])) = 1"
    by (simp add: findProjectsAt_def oneProject_def findProjects_Dir scanItems_Dir hasManifest_def)
  show ?thesis
    using ex two one
      totalProjects_from_second_walk [where fsLater = oneProject and fs = twoProjects
        and rootPath = "[]" and h = exampleHost and now = "''2024-01-01T00:00:00.000Z''"
        and deps = "[]" and devDeps = "[]"]
    by simp
qed

lemma processAll_Cons:
  "processAll h fs (p # rest) maps =
     (fst (processAll h fs rest (fst (processProject h fs p maps))),
      Processing p # snd (processProject h fs p maps) @
        snd (processAll h fs rest (fst (processProject h fs p maps))))"
  by (simp add: Let_def split: prod.splits)

declare processAll.simps(2) [simp del]





lemma mapSet_lookup: "map_of (mapSet m k v) = (map_of m)(k \<mapsto> v)"
  by (induction m) (auto simp: fun_eq_iff)

lemma mapSet_names:
  "map fst (mapSet m k v) = (if k \<in> fst ` set m then map fst m else map fst m @ [k])"
proof (induction m)
  case Nil
  show ?case by simp
next
  case (Cons x m)
  obtain k' v' where x: "x = (k', v')" by (cases x)
  show ?case using Cons by (cases "k' = k") (simp_all add: x)
qed

lemma mapSet_keys: "fst ` set (mapSet m k v) = insert k (fst ` set m)"
proof -
  have "set (map fst (mapSet m k v)) = insert k (set (map fst m))"
    unfolding mapSet_names by auto
  then show ?thesis by simp
qed

lemma mapSet_distinct: "distinct (map fst m) \<Longrightarrow> distinct (map fst (mapSet m k v))"
  unfolding mapSet_names by auto

lemma caretObject_lookup_general:
  "distinct (map fst m) \<Longrightarrow> name \<noteq> ''__proto__'' \<Longrightarrow>
   map_of (foldl (\<lambda>obj (n, version). objectSet obj n (CHR ''^'' # version)) obj m) name =
     (case map_of m name of None \<Rightarrow> map_of obj name | Some v \<Rightarrow> Some (CHR ''^'' # v))"
proof (induction m arbitrary: obj)
  case Nil
  show ?case by simp
next
  case (Cons x m)
  obtain n v where x: "x = (n, v)" by (cases x)
  have d: "distinct (map fst m)" "n \<notin> fst ` set m" using Cons.prems(1) x by auto
  have none: "map_of m n = None" using d(2) by (simp add: map_of_eq_None_iff)
  show ?case
    using Cons.IH[OF d(1) Cons.prems(2)] none Cons.prems(2)
    by (auto simp: x objectSet_def mapSet_lookup split: option.splits)
qed

text \<open>
  For every name but \<^verbatim>\<open>__proto__\<close> the report holds the stored version with a caret
  before it, and the normalizer gives the stored version back.
\<close>

lemma caretObject_roundtrip:
  assumes "distinct (map fst m)" "name \<noteq> ''__proto__''" "map_of m name = Some v"
  shows "map_of (caretObject m) name = Some (CHR ''^'' # v) \<and> cleanVersion (CHR ''^'' # v) = v"
  using caretObject_lookup_general[OF assms(1,2), of "[]"] assms(3)
  by (simp add: caretObject_def operatorChars_def)

text \<open>
  Claim C7 at a dependency named \<^verbatim>\<open>__proto__\<close>. The map holds the name with its cleaned
  version, and \<open>totalDependencies\<close> counts it, but the report has no value for it:
  \<^verbatim>\<open>dependenciesObj[name] = ...\<close> on that name creates no property.
\<close>

theorem caret_prefix_misses_proto:
  "fst (processAll exampleHost protoTree [[''P'']] ([], [])) = ([(''__proto__'', ''1.0.0'')], []) \<and>
   written (scanProjects exampleHost protoTree protoTree ''2024-01-01T00:00:00.000Z'' None []) =
     Some \<lparr>scanDate = ''2024-01-01T00:00:00.000Z'', vegaPath = [], totalProjects = 1,
            dependencies = [], devDependencies = [],
            summary = \<lparr>totalDependencies = 1, totalDevDependencies = 0\<rparr>\<rparr>"
  by code_simp

section \<open>The merger against its contract\<close>

lemma mapGet_mergeVersion:
  "mapGet (mergeVersion num m n v) name =
     (if n = name then keepHigher num (mapGet m name) (cleanVersion v) else mapGet m name)"
  by (auto simp: mergeVersion_def mapGet_def mapHas_def keepHigher_def mapSet_lookup Let_def
      split: option.splits)

lemma mapGet_mergeAll:
  "mapGet (mergeAll num m entries) name =
     foldl (keepHigher num) (mapGet m name) (seenVersions name entries)"
proof (induction entries arbitrary: m)
  case Nil
  show ?case by (simp add: seenVersions_def)
next
  case (Cons x entries)
  obtain n v where x: "x = (n, v)" by (cases x)
  show ?case
    using Cons[of "mergeVersion num m n v"]
    by (simp add: x mapGet_mergeVersion seenVersions_def)
qed

lemma mergeEntries_fold:
  "mergeEntries num entries m =
     (mergeAll num m (stringEntries entries),
      if list_all stringValued entries then None else Some TypeError)"
proof (induction entries arbitrary: m)
  case Nil
  show ?case by simp
next
  case (Cons x entries)
  obtain n j where x: "x = (n, j)" by (cases x)
  show ?case using Cons by (cases j) (simp_all add: x)
qed

lemma processGroup_fold:
  "processGroup num packageJson grp m =
     (mergeAll num m (stringEntries (declaredGroup packageJson grp)),
      if groupThrows packageJson grp then Some TypeError else None)"
proof (cases packageJson)
  case JNull
  then show ?thesis by (simp add: processGroup_def declaredGroup_def groupThrows_def)
next
  case (JObj props)
  show ?thesis
  proof (cases "map_of props grp")
    case None
    then show ?thesis using JObj by (simp add: processGroup_def declaredGroup_def groupThrows_def)
  next
    case (Some deps)
    then show ?thesis using JObj
      by (cases deps)
        (simp_all add: processGroup_def declaredGroup_def groupThrows_def processDependencyGroup_def
          mergeEntries_fold)
  qed
qed (simp_all add: processGroup_def declaredGroup_def groupThrows_def)

lemma processProject_fold:
  "fst (processProject h fs p (m1, m2)) =
     (mergeAll (toNumber h) m1 (mergedRuntime h fs p), mergeAll (toNumber h) m2 (mergedDev h fs p))"
  by (simp add: processProject_def manifestOf_def mergedRuntime_def mergedDev_def processGroup_fold
      Let_def split: sum.splits option.splits)

lemma processProject_warnings:
  "snd (processProject h fs p (m1, m2)) = snd (processProject h fs p ([], []))"
  by (simp add: processProject_def processGroup_fold Let_def split: sum.splits option.splits)

lemma processedCleanly_iff:
  "processedCleanly h fs p =
     (\<exists>packageJson. manifestOf h fs p = Some packageJson \<and>
        \<not> groupThrows packageJson ''dependencies'' \<and> \<not> groupThrows packageJson ''devDependencies'')"
  by (simp add: processedCleanly_def processProject_def manifestOf_def processGroup_fold
      Let_def split: sum.splits option.splits)

lemma processAll_fold:
  "fst (processAll h fs projects (m1, m2)) =
     (mergeAll (toNumber h) m1 (concat (map (mergedRuntime h fs) projects)),
      mergeAll (toNumber h) m2 (concat (map (mergedDev h fs) projects)))"
proof (induction projects arbitrary: m1 m2)
  case Nil
  show ?case by simp
next
  case (Cons p projects)
  show ?case
    unfolding processAll_Cons processProject_fold fst_conv Cons by simp
qed

lemma stringEntries_all:
  "list_all stringValued entries \<Longrightarrow> (name, JStr v) \<in> set entries \<Longrightarrow> (name, v) \<in> set (stringEntries entries)"
proof (induction entries)
  case Nil
  then show ?case by simp
next
  case (Cons x entries)
  obtain n j where x: "x = (n, j)" by (cases x)
  show ?case using Cons by (cases j) (auto simp: x)
qed

lemma keepHigher_simps:
  "keepHigher num None c = Some c"
  "keepHigher num (Some t) c = (if isVersionHigher num c t then Some c else Some t)"
  by (simp_all add: keepHigher_def)

lemma keepHigher_not_None: "keepHigher num stored c \<noteq> None"
  by (cases stored) (simp_all add: keepHigher_simps)

lemma keepHigher_first_highest:
  assumes "foldl (keepHigher num) None cs = Some s"
  shows "\<exists>before after. cs = before @ s # after \<and>
           (\<forall>x \<in> set before. isVersionHigher num s x) \<and>
           (\<forall>x \<in> set after. \<not> isVersionHigher num x s)"
  using assms
proof (induction cs arbitrary: s rule: rev_induct)
  case Nil
  then show ?case by simp
next
  case (snoc c cs)
  show ?case
  proof (cases "foldl (keepHigher num) None cs")
    case None
    have "cs = []"
    proof (rule ccontr)
      assume "cs \<noteq> []"
      then obtain y ys where "cs = ys @ [y]" by (metis rev_exhaust)
      then show False using None by (simp add: keepHigher_not_None)
    qed
    then have "s = c" using snoc.prems by (simp add: keepHigher_simps)
    then have "cs @ [c] = [] @ s # []" using \<open>cs = []\<close> by simp
    then show ?thesis by (metis empty_iff list.set(1))
  next
    case (Some t)
    obtain before after where t: "cs = before @ t # after"
      "\<forall>x \<in> set before. isVersionHigher num t x" "\<forall>x \<in> set after. \<not> isVersionHigher num x t"
      using snoc.IH[OF Some] by blast
    show ?thesis
    proof (cases "isVersionHigher num c t")
      case True
      then have s: "s = c" using snoc.prems Some by (simp add: keepHigher_simps)
      have "isVersionHigher num c x" if mem: "x \<in> set cs" for x
      proof -
        have "x \<in> set before \<or> x = t \<or> x \<in> set after" using mem t(1) by auto
        then consider "x \<in> set before" | "x = t" | "x \<in> set after" by blast
        then show ?thesis
        proof cases
          case 1
          then show ?thesis using t(2) True isVersionHigher_trans by blast
        next
          case 2
          then show ?thesis using True by simp
        next
          case 3
          then have "\<not> isVersionHigher num x t" using t(3) by blast
          then show ?thesis using isVersionHigher_cotrans[OF True, of x] by blast
        qed
      qed
      then have "cs @ [c] = cs @ s # [] \<and> (\<forall>x \<in> set cs. isVersionHigher num s x) \<and>
          (\<forall>x \<in> set []. \<not> isVersionHigher num x s)"
        using s by simp
      then show ?thesis by blast
    next
      case False
      then have s: "s = t" using snoc.prems Some by (simp add: keepHigher_simps)
      have "cs @ [c] = before @ s # (after @ [c]) \<and> (\<forall>x \<in> set before. isVersionHigher num s x) \<and>
          (\<forall>x \<in> set (after @ [c]). \<not> isVersionHigher num x s)"
        using s t False by simp
      then show ?thesis by blast
    qed
  qed
qed

lemma keepHigher_none: "(foldl (keepHigher num) None cs = None) = (cs = [])"
proof (cases cs rule: rev_cases)
  case Nil
  then show ?thesis by simp
next
  case (snoc ys y)
  then show ?thesis by (simp add: keepHigher_not_None)
qed

lemma firstHighest_mem: "firstHighest num s cs \<Longrightarrow> s \<in> set cs"
  by (auto simp: firstHighest_def)

lemma firstHighest_dominates:
  assumes "firstHighest num s cs" "x \<in> set cs"
  shows "\<not> isVersionHigher num x s"
proof -
  obtain before after where c: "cs = before @ s # after"
    "\<forall>x \<in> set before. isVersionHigher num s x" "\<forall>x \<in> set after. \<not> isVersionHigher num x s"
    using assms(1) unfolding firstHighest_def by blast
  have "x \<in> set before \<or> x = s \<or> x \<in> set after" using assms(2) c(1) by auto
  then consider "x \<in> set before" | "x = s" | "x \<in> set after" by blast
  then show ?thesis
  proof cases
    case 1
    then show ?thesis using c(2) isVersionHigher_asym by blast
  next
    case 2
    then show ?thesis by (simp add: isVersionHigher_irrefl)
  next
    case 3
    then show ?thesis using c(3) by blast
  qed
qed

lemma mergeAll_firstHighest:
  assumes "mapGet (mergeAll num [] entries) name = Some s"
  shows "firstHighest num s (seenVersions name entries)"
proof -
  have "foldl (keepHigher num) None (seenVersions name entries) = Some s"
    using assms mapGet_mergeAll[of num "[]" entries name] by (simp add: mapGet_def)
  then show ?thesis unfolding firstHighest_def by (rule keepHigher_first_highest)
qed

lemma seenVersions_mem:
  "(name, v) \<in> set entries \<Longrightarrow> cleanVersion v \<in> set (seenVersions name entries)"
  by (force simp: seenVersions_def)

lemma declared_dominated:
  assumes "firstHighest num s (seenVersions name (concat (map f projects)))"
    and "p \<in> set projects" "(name, v) \<in> set (f p)"
  shows "\<not> isVersionHigher num (cleanVersion v) s"
proof -
  have "(name, v) \<in> set (concat (map f projects))" using assms(2,3) by auto
  then have "cleanVersion v \<in> set (seenVersions name (concat (map f projects)))"
    by (rule seenVersions_mem)
  then show ?thesis using assms(1) firstHighest_dominates by blast
qed

lemma clean_runtime_entries:
  assumes "processedCleanly h fs p" "manifestOf h fs p = Some packageJson"
    "(name, JStr v) \<in> set (declaredGroup packageJson ''dependencies'')"
  shows "(name, v) \<in> set (mergedRuntime h fs p)"
proof -
  have "\<not> groupThrows packageJson ''dependencies''"
    using assms(1,2) by (simp add: processedCleanly_iff)
  then have "list_all stringValued (declaredGroup packageJson ''dependencies'')"
    by (simp add: groupThrows_def)
  then show ?thesis using assms(2,3) by (simp add: mergedRuntime_def stringEntries_all)
qed

lemma clean_dev_entries:
  assumes "processedCleanly h fs p" "manifestOf h fs p = Some packageJson"
    "(name, JStr v) \<in> set (declaredGroup packageJson ''devDependencies'')"
  shows "(name, v) \<in> set (mergedDev h fs p)"
proof -
  have t: "\<not> groupThrows packageJson ''dependencies''" "\<not> groupThrows packageJson ''devDependencies''"
    using assms(1,2) by (simp_all add: processedCleanly_iff)
  then have "list_all stringValued (declaredGroup packageJson ''devDependencies'')"
    by (simp add: groupThrows_def)
  then show ?thesis using assms(2,3) t(1) by (simp add: mergedDev_def stringEntries_all)
qed

text \<open>
  Claim C1. After the loop over the projects, started on two empty maps, a name that is
  in the runtime map is mapped to a cleaned version \<open>s\<close> that is the first highest of
  the cleaned versions the merger met for that name in the runtime groups: \<open>s\<close> is one of
  them, the comparator ranks none of them above \<open>s\<close>, and all that came before \<open>s\<close>
  rank strictly below it, so among versions that compare equal and highest the first
  one seen is stored. In particular \<open>s\<close> is not ranked below the cleaned form of any
  version that a manifest processed without a warning declares for the name in that
  group. The same holds for the development map and the development groups.
\<close>

theorem stored_version_is_first_highest:
  assumes "fst (processAll h fs projects ([], [])) = (deps, devDeps)"
  shows "(mapGet deps name = Some s \<longrightarrow>
            firstHighest (toNumber h) s (seenVersions name (concat (map (mergedRuntime h fs) projects))) \<and>
            (\<forall>p \<in> set projects. \<forall>packageJson v.
               processedCleanly h fs p \<and> manifestOf h fs p = Some packageJson \<and>
               (name, JStr v) \<in> set (declaredGroup packageJson ''dependencies'') \<longrightarrow>
               \<not> isVersionHigher (toNumber h) (cleanVersion v) s)) \<and>
         (mapGet devDeps name = Some s \<longrightarrow>
            firstHighest (toNumber h) s (seenVersions name (concat (map (mergedDev h fs) projects))) \<and>
            (\<forall>p \<in> set projects. \<forall>packageJson v.
               processedCleanly h fs p \<and> manifestOf h fs p = Some packageJson \<and>
               (name, JStr v) \<in> set (declaredGroup packageJson ''devDependencies'') \<longrightarrow>
               \<not> isVersionHigher (toNumber h) (cleanVersion v) s))"
proof -
  have maps: "deps = mergeAll (toNumber h) [] (concat (map (mergedRuntime h fs) projects))"
    "devDeps = mergeAll (toNumber h) [] (concat (map (mergedDev h fs) projects))"
    using assms by (simp_all add: processAll_fold)
  have runtime: "firstHighest (toNumber h) s (seenVersions name (concat (map (mergedRuntime h fs) projects)))"
    if "mapGet deps name = Some s"
    using that unfolding maps(1) by (rule mergeAll_firstHighest)
  have dev: "firstHighest (toNumber h) s (seenVersions name (concat (map (mergedDev h fs) projects)))"
    if "mapGet devDeps name = Some s"
    using that unfolding maps(2) by (rule mergeAll_firstHighest)
  have r2: "\<not> isVersionHigher (toNumber h) (cleanVersion v) s"
    if "mapGet deps name = Some s" "p \<in> set projects"
      "processedCleanly h fs p \<and> manifestOf h fs p = Some packageJson \<and>
       (name, JStr v) \<in> set (declaredGroup packageJson ''dependencies'')" for p packageJson v
  proof -
    have "(name, v) \<in> set (mergedRuntime h fs p)" using that(3) clean_runtime_entries by blast
    then show ?thesis using declared_dominated[OF runtime[OF that(1)] that(2)] by blast
  qed
  have d2: "\<not> isVersionHigher (toNumber h) (cleanVersion v) s"
    if "mapGet devDeps name = Some s" "p \<in> set projects"
      "processedCleanly h fs p \<and> manifestOf h fs p = Some packageJson \<and>
       (name, JStr v) \<in> set (declaredGroup packageJson ''devDependencies'')" for p packageJson v
  proof -
    have "(name, v) \<in> set (mergedDev h fs p)" using that(3) clean_dev_entries by blast
    then show ?thesis using declared_dominated[OF dev[OF that(1)] that(2)] by blast
  qed
  show ?thesis
  proof (intro conjI impI ballI allI)
    assume "mapGet deps name = Some s"
    then show "firstHighest (toNumber h) s (seenVersions name (concat (map (mergedRuntime h fs) projects)))"
      by (rule runtime)
  next
    fix p packageJson v
    assume "mapGet deps name = Some s" "p \<in> set projects"
      "processedCleanly h fs p \<and> manifestOf h fs p = Some packageJson \<and>
       (name, JStr v) \<in> set (declaredGroup packageJson ''dependencies'')"
    then show "\<not> isVersionHigher (toNumber h) (cleanVersion v) s" by (rule r2)
  next
    assume "mapGet devDeps name = Some s"
    then show "firstHighest (toNumber h) s (seenVersions name (concat (map (mergedDev h fs) projects)))"
      by (rule dev)
  next
    fix p packageJson v
    assume "mapGet devDeps name = Some s" "p \<in> set projects"
      "processedCleanly h fs p \<and> manifestOf h fs p = Some packageJson \<and>
       (name, JStr v) \<in> set (declaredGroup packageJson ''devDependencies'')"
    then show "\<not> isVersionHigher (toNumber h) (cleanVersion v) s" by (rule d2)
  qed
qed

text \<open>
  An instance: \<open>1.0\<close> and \<open>1.0.0\<close> compare equal; \<open>1.0\<close> is seen first and stays.
\<close>

theorem stored_version_is_first_highest_witness:
  "fst (processAll exampleHost tiedProjects [[''A''], [''B'']] ([], [])) = ([(''lib'', ''1.0'')], []) \<and>
   mapGet [(''lib'', ''1.0'')] ''lib'' = Some ''1.0'' \<and>
   processedCleanly exampleHost tiedProjects [''B''] \<and>
   seenVersions ''lib'' (concat (map (mergedRuntime exampleHost tiedProjects) [[''A''], [''B'']])) =
     [''1.0'', ''1.0.0''] \<and>
   firstHighest decimalNumber ''1.0'' [''1.0'', ''1.0.0''] \<and>
   \<not> isVersionHigher decimalNumber (cleanVersion ''1.0.0'') ''1.0''"
proof -
  have run: "fst (processAll exampleHost tiedProjects [[''A''], [''B'']] ([], [])) = ([(''lib'', ''1.0'')], [])"
    by code_simp
  have get: "mapGet [(''lib'', ''1.0'')] ''lib'' = Some ''1.0''"
    by (simp add: mapGet_def)
  have clean: "processedCleanly exampleHost tiedProjects [''B'']"
    by code_simp
  have man: "manifestOf exampleHost tiedProjects [''B''] =
      Some (JObj [(''dependencies'', JObj [(''lib'', JStr ''1.0.0'')])])"
    by code_simp
  have decl: "(''lib'', JStr ''1.0.0'')
      \<in> set (declaredGroup (JObj [(''dependencies'', JObj [(''lib'', JStr ''1.0.0'')])]) ''dependencies'')"
    by (simp add: declaredGroup_def)
  have seen: "seenVersions ''lib'' (concat (map (mergedRuntime exampleHost tiedProjects) [[''A''], [''B'']])) =
     [''1.0'', ''1.0.0'']"
    by code_simp
  have num: "toNumber exampleHost = decimalNumber" by (simp add: exampleHost_def)
  have b: "[''B''] \<in> set [[''A''], [''B'']]" by simp
  note inst = stored_version_is_first_highest [OF run, of "''lib''" "''1.0''", unfolded num seen]
  have first: "firstHighest decimalNumber ''1.0'' [''1.0'', ''1.0.0'']"
    using inst get by blast
  have "\<not> isVersionHigher decimalNumber (cleanVersion ''1.0.0'') ''1.0''"
    using inst get b clean man decl by blast
  then show ?thesis using run get clean seen first by blast
qed

lemma stringEntries_strings: "stringEntries (map (\<lambda>(n, v). (n, JStr v)) xs) = xs"
  by (induction xs) auto

lemma seenVersions_set:
  "set (seenVersions name entries) = {cleanVersion v | v. (name, v) \<in> set entries}"
  by (force simp: seenVersions_def)

text \<open>
  Claim C4. Let two lists hold the same set of (name, raw version) entries, and let the
  comparator rank any two different cleaned versions among them one above the other.
  Then the merger's loop, started on the empty map, maps every name to the same version
  for both lists. Equality is that of the mapping from names to versions; the order in
  which the \<^verbatim>\<open>Map\<close> holds its keys follows the order of processing.
\<close>

theorem merge_order_independent:
  assumes "set xs = set ys"
    and "\<forall>a \<in> set xs. \<forall>b \<in> set xs. cleanVersion (snd a) \<noteq> cleanVersion (snd b) \<longrightarrow>
           isVersionHigher num (cleanVersion (snd a)) (cleanVersion (snd b)) \<or>
           isVersionHigher num (cleanVersion (snd b)) (cleanVersion (snd a))"
  shows "map_of (fst (mergeEntries num (map (\<lambda>(n, v). (n, JStr v)) xs) [])) =
         map_of (fst (mergeEntries num (map (\<lambda>(n, v). (n, JStr v)) ys) []))"
proof
  fix name
  let ?sx = "seenVersions name xs" and ?sy = "seenVersions name ys"
  have same: "set ?sx = set ?sy" using assms(1) by (simp add: seenVersions_set)
  have total: "a = b \<or> isVersionHigher num a b \<or> isVersionHigher num b a"
    if ma: "a \<in> set ?sx" and mb: "b \<in> set ?sx" for a b
  proof -
    have "\<exists>va. a = cleanVersion va \<and> (name, va) \<in> set xs"
      using ma by (simp add: seenVersions_set)
    then obtain va where va: "a = cleanVersion va" "(name, va) \<in> set xs" by blast
    have "\<exists>vb. b = cleanVersion vb \<and> (name, vb) \<in> set xs"
      using mb by (simp add: seenVersions_set)
    then obtain vb where vb: "b = cleanVersion vb" "(name, vb) \<in> set xs" by blast
    show ?thesis using assms(2) va vb by fastforce
  qed
  have lookup: "map_of (fst (mergeEntries num (map (\<lambda>(n, v). (n, JStr v)) zs) [])) name =
      foldl (keepHigher num) None (seenVersions name zs)" for zs
    using mapGet_mergeAll[of num "[]" zs name]
    by (simp add: mergeEntries_fold stringEntries_strings mapGet_def)
  have "foldl (keepHigher num) None ?sx = foldl (keepHigher num) None ?sy"
  proof (cases "foldl (keepHigher num) None ?sx")
    case None
    then have "?sx = []" by (simp add: keepHigher_none)
    then have "?sy = []" using same by simp
    then show ?thesis using None by simp
  next
    case (Some sx)
    then have "?sx \<noteq> []" by auto
    then have "?sy \<noteq> []" using same by auto
    then obtain sy where sy: "foldl (keepHigher num) None ?sy = Some sy"
      using keepHigher_none[of num ?sy] by auto
    have fx: "firstHighest num sx ?sx" unfolding firstHighest_def using Some by (rule keepHigher_first_highest)
    have fy: "firstHighest num sy ?sy" unfolding firstHighest_def using sy by (rule keepHigher_first_highest)
    have mx: "sx \<in> set ?sx" using fx by (rule firstHighest_mem)
    have my: "sy \<in> set ?sx" using fy firstHighest_mem same by blast
    have "\<not> isVersionHigher num sy sx" using fx my by (rule firstHighest_dominates)
    moreover have "\<not> isVersionHigher num sx sy" using fy mx same firstHighest_dominates by blast
    ultimately have "sx = sy" using total[OF mx my] by blast
    then show ?thesis using Some sy by simp
  qed
  then show "map_of (fst (mergeEntries num (map (\<lambda>(n, v). (n, JStr v)) xs) [])) name =
         map_of (fst (mergeEntries num (map (\<lambda>(n, v). (n, JStr v)) ys) [])) name"
    by (simp add: lookup)
qed

text \<open>An instance: three entries in two orders.\<close>

theorem merge_order_independent_witness:
  "set [(''lib'', ''^1.2.0''), (''lib'', ''1.5.0''), (''tool'', ''~2.0'')] =
     set [(''tool'', ''~2.0''), (''lib'', ''1.5.0''), (''lib'', ''^1.2.0'')] \<and>
   isVersionHigher decimalNumber ''1.5.0'' ''1.2.0'' \<and>
   isVersionHigher decimalNumber ''2.0'' ''1.5.0'' \<and>
   isVersionHigher decimalNumber ''2.0'' ''1.2.0'' \<and>
   map_of (fst (mergeEntries decimalNumber
       [(''lib'', JStr ''^1.2.0''), (''lib'', JStr ''1.5.0''), (''tool'', JStr ''~2.0'')] [])) =
   map_of (fst (mergeEntries decimalNumber
       [(''tool'', JStr ''~2.0''), (''lib'', JStr ''1.5.0''), (''lib'', JStr ''^1.2.0'')] [])) \<and>
   fst (mergeEntries decimalNumber
       [(''lib'', JStr ''^1.2.0''), (''lib'', JStr ''1.5.0''), (''tool'', JStr ''~2.0'')] []) =
     [(''lib'', ''1.5.0''), (''tool'', ''2.0'')] \<and>
   fst (mergeEntries decimalNumber
       [(''tool'', JStr ''~2.0''), (''lib'', JStr ''1.5.0''), (''lib'', JStr ''^1.2.0'')] []) =
     [(''tool'', ''2.0''), (''lib'', ''1.5.0'')]"
proof -
  have s: "set [(''lib'', ''^1.2.0''), (''lib'', ''1.5.0''), (''tool'', ''~2.0'')] =
     set [(''tool'', ''~2.0''), (''lib'', ''1.5.0''), (''lib'', ''^1.2.0'')]" by auto
  have h1: "isVersionHigher decimalNumber ''1.5.0'' ''1.2.0''" by code_simp
  have h2: "isVersionHigher decimalNumber ''2.0'' ''1.5.0''" by code_simp
  have h3: "isVersionHigher decimalNumber ''2.0'' ''1.2.0''" by code_simp
  have t: "\<forall>a \<in> set [(''lib'', ''^1.2.0''), (''lib'', ''1.5.0''), (''tool'', ''~2.0'')].
      \<forall>b \<in> set [(''lib'', ''^1.2.0''), (''lib'', ''1.5.0''), (''tool'', ''~2.0'')].
      cleanVersion (snd a) \<noteq> cleanVersion (snd b) \<longrightarrow>
           isVersionHigher decimalNumber (cleanVersion (snd a)) (cleanVersion (snd b)) \<or>
           isVersionHigher decimalNumber (cleanVersion (snd b)) (cleanVersion (snd a))"
    using h1 h2 h3 by (simp add: operatorChars_def)
  have e1: "fst (mergeEntries decimalNumber
       [(''lib'', JStr ''^1.2.0''), (''lib'', JStr ''1.5.0''), (''tool'', JStr ''~2.0'')] []) =
     [(''lib'', ''1.5.0''), (''tool'', ''2.0'')]" by code_simp
  have e2: "fst (mergeEntries decimalNumber
       [(''tool'', JStr ''~2.0''), (''lib'', JStr ''1.5.0''), (''lib'', JStr ''^1.2.0'')] []) =
     [(''tool'', ''2.0''), (''lib'', ''1.5.0'')]" by code_simp
  show ?thesis
    using merge_order_independent [OF s t] h1 h2 h3 s e1 e2 by simp
qed

end
